theory Spec2Isabelle
  imports Main
begin

section \<open>The List block of blocks/library/list/index.js\<close>

text \<open>
  JavaScript strings are modelled as \<^typ>\<open>string\<close>, one \<^typ>\<open>char\<close> per UTF-16 code
  unit; the model therefore covers the strings whose code units are below 256.
  A value of type "string or undefined" is a \<open>js_string\<close>.
\<close>

datatype js_string = Undefined | Str string

subsection \<open>The regular expression \<open>/<br\s*?\/?>/\<close>\<close>

text \<open>
  The class \<open>\s\<close> of a JavaScript regular expression, on the code units below 256:
  tab, line feed, vertical tab, form feed, carriage return, space and U+00A0.
\<close>

definition is_space :: "char \<Rightarrow> bool" where
  "is_space c = (of_char c \<in> {9, 10, 11, 12, 13, 32, 160 :: nat})"

text \<open>
  What follows \<open><br\<close> in a match: white space, then an optional slash, then \<open>></\<close>.
  No white space character is a slash or \<open>></\<close>, so the lazy star has one way to
  succeed only; the result is the input after the match.
\<close>

fun br_tail :: "string \<Rightarrow> string option" where
  "br_tail [] = None"
| "br_tail (c # cs) =
     (if c = CHR ''>'' then Some cs
      else if c = CHR ''/'' then (case cs of [] \<Rightarrow> None
                                   | d # ds \<Rightarrow> if d = CHR ''>'' then Some ds else None)
      else if is_space c then br_tail cs
      else None)"

text \<open>A match of the expression at the start of the input; the rest of the input.\<close>

fun match_br :: "string \<Rightarrow> string option" where
  "match_br (a # b # c # cs) =
     (if a = CHR ''<'' \<and> b = CHR ''b'' \<and> c = CHR ''r'' then br_tail cs else None)"
| "match_br _ = None"

lemma br_tail_length: "br_tail s = Some r \<Longrightarrow> length r < length s"
  by (induction s rule: br_tail.induct) (auto split: if_splits list.splits)

lemma match_br_length: "match_br s = Some r \<Longrightarrow> length r < length s"
  by (cases s rule: match_br.cases) (auto split: if_splits dest: br_tail_length)

subsection \<open>\<open>String.prototype.split\<close> with that expression\<close>

text \<open>
  \<open>split_loop seg s\<close>: \<open>seg\<close> is the text since the last match, \<open>s\<close> the input
  still to scan. The expression is tried at each position from left to right; at a
  match the segment is closed and the scan goes on after the match. The input that
  remains at the end is the last segment, so the empty string splits into \<open>['''']\<close>.
\<close>

function split_loop :: "string \<Rightarrow> string \<Rightarrow> string list" where
  "split_loop seg [] = [seg]"
| "split_loop seg (c # cs) =
     (case match_br (c # cs) of
        Some r \<Rightarrow> seg # split_loop [] r
      | None \<Rightarrow> split_loop (seg @ [c]) cs)"
  by pat_completeness auto
termination
  by (relation "measure (\<lambda>(seg, s). length s)") (auto dest: match_br_length)

definition split_br :: "string \<Rightarrow> string list" where
  "split_br content = split_loop [] content"

subsection \<open>\<open>Array.prototype.join\<close>\<close>

fun join_sep :: "string \<Rightarrow> string list \<Rightarrow> string" where
  "join_sep sep [] = []"
| "join_sep sep [x] = x"
| "join_sep sep (x # y # ys) = x @ sep @ join_sep sep (y # ys)"

text \<open>\<open>join()\<close> without an argument separates the elements with a comma.\<close>

definition join_default :: "string list \<Rightarrow> string" where
  "join_default xs = join_sep '','' xs"

subsection \<open>fromBrDelimitedContent\<close>

text \<open>The callback of \<open>reduce\<close>: an item that is not the empty string is pushed.\<close>

definition reduce_step :: "string list \<Rightarrow> string \<Rightarrow> string list" where
  "reduce_step memo item =
     (if item \<noteq> [] then memo @ [''<li>'' @ item @ ''</li>''] else memo)"

fun fromBrDelimitedContent :: "js_string \<Rightarrow> js_string" where
  "fromBrDelimitedContent Undefined = Undefined"
| "fromBrDelimitedContent (Str content) =
     Str (join_default (foldl reduce_step [] (split_br content)))"

subsection \<open>The document tree\<close>

text \<open>
  A node of the tree that the browser builds: a text node with its data, or an
  element with its local name (in lower case) and its children. Attributes are not
  modelled.
\<close>

datatype node = TextNode string | Element string "node list"

definition lower_letters :: string where
  "lower_letters = ''abcdefghijklmnopqrstuvwxyz''"

definition upper_letters :: string where
  "upper_letters = ''ABCDEFGHIJKLMNOPQRSTUVWXYZ''"

definition to_upper :: "char \<Rightarrow> char" where
  "to_upper c = (case map_of (zip lower_letters upper_letters) c of
                   Some u \<Rightarrow> u | None \<Rightarrow> c)"

definition to_lower :: "char \<Rightarrow> char" where
  "to_lower c = (case map_of (zip upper_letters lower_letters) c of
                   Some l \<Rightarrow> l | None \<Rightarrow> c)"

definition is_letter :: "char \<Rightarrow> bool" where
  "is_letter c = (c \<in> set lower_letters \<or> c \<in> set upper_letters)"

text \<open>\<open>nodeName\<close>: the tag name in upper case for an element of an HTML document.\<close>

fun nodeName_of :: "node \<Rightarrow> string" where
  "nodeName_of (TextNode v) = ''#text''"
| "nodeName_of (Element t cs) = map to_upper t"

definition void_elements :: "string list" where
  "void_elements = [''br'']"

text \<open>
  \<open>outerHTML\<close>: the HTML serialisation of a node. The data of a text node is
  escaped; a void element has no end tag.
\<close>

definition escape_char :: "char \<Rightarrow> string" where
  "escape_char c =
     (if c = CHR ''&'' then ''&amp;''
      else if c = CHR 0xA0 then ''&nbsp;''
      else if c = CHR ''<'' then ''&lt;''
      else if c = CHR ''>'' then ''&gt;''
      else [c])"

fun outerHTML :: "node \<Rightarrow> string" where
  "outerHTML (TextNode v) = concat (map escape_char v)"
| "outerHTML (Element t cs) =
     (if t \<in> set void_elements then ''<'' @ t @ ''>''
      else ''<'' @ t @ ''>'' @ concat (map outerHTML cs) @ ''</'' @ t @ ''>'')"

subsection \<open>Setting \<open>innerHTML\<close> on a new \<open>ul\<close> element\<close>

text \<open>
  The browser's fragment parser is not part of the repository. It is modelled on a
  fragment of HTML on which the parsing rules of the HTML standard are the plain ones,
  and the model answers \<open>None\<close> outside this fragment:
  \<^item> a tag is \<open><name>\<close> or \<open></name>\<close>, the name made of ASCII letters, without
    attributes and without white space;
  \<^item> the elements are \<open>li\<close>, \<open>ul\<close>, \<open>ol\<close>, \<open>b\<close>, \<open>i\<close>, \<open>em\<close>, \<open>strong\<close>,
    \<open>code\<close>, \<open>span\<close> and the void element \<open>br\<close>;
  \<^item> every element but \<open>br\<close> is closed by its own end tag, in nesting order;
  \<^item> an \<open>li\<close> starts at the top level or directly inside a \<open>ul\<close> or an \<open>ol\<close>
    (elsewhere the standard may close an open \<open>li\<close> first);
  \<^item> text has no \<open>&\<close> (character references), no \<open><\<close>, no carriage return and
    no NUL, which the standard rewrites.
\<close>

datatype token = Chars string | StartTag string | EndTag string

definition text_char :: "char \<Rightarrow> bool" where
  "text_char c = (c \<noteq> CHR ''<'' \<and> c \<noteq> CHR ''&'' \<and> c \<noteq> CHR 0x0D \<and> c \<noteq> CHR 0x00)"

text \<open>The name of a tag up to \<open>></\<close>, in lower case, and the input after it.\<close>

fun tag_name :: "string \<Rightarrow> (string \<times> string) option" where
  "tag_name [] = None"
| "tag_name (c # cs) =
     (if c = CHR ''>'' then Some ([], cs)
      else if is_letter c then
        (case tag_name cs of
           None \<Rightarrow> None
         | Some (n, r) \<Rightarrow> Some (to_lower c # n, r))
      else None)"

lemma tag_name_length: "tag_name s = Some (n, r) \<Longrightarrow> length r < length s"
  by (induction s arbitrary: n r) (auto split: if_splits option.splits)

fun add_char :: "char \<Rightarrow> token list \<Rightarrow> token list" where
  "add_char c (Chars s # ts) = Chars (c # s) # ts"
| "add_char c ts = Chars [c] # ts"

fun tag_token :: "bool \<Rightarrow> string \<Rightarrow> token list option \<Rightarrow> token list option" where
  "tag_token closing n None = None"
| "tag_token closing n (Some ts) =
     (if n = [] then None
      else Some ((if closing then EndTag n else StartTag n) # ts))"

function tokenize :: "string \<Rightarrow> token list option" where
  "tokenize [] = Some []"
| "tokenize (c # cs) =
     (if c = CHR ''<'' then
        (case cs of
           [] \<Rightarrow> None
         | d # ds \<Rightarrow>
             if d = CHR ''/'' then
               (case tag_name ds of
                  None \<Rightarrow> None
                | Some (n, r) \<Rightarrow> tag_token True n (tokenize r))
             else
               (case tag_name (d # ds) of
                  None \<Rightarrow> None
                | Some (n, r) \<Rightarrow> tag_token False n (tokenize r)))
      else if text_char c then map_option (add_char c) (tokenize cs)
      else None)"
  by pat_completeness auto
termination
  by (relation "measure length") (auto dest!: tag_name_length simp del: tag_name.simps)

definition supported_elements :: "string list" where
  "supported_elements =
     [''li'', ''ul'', ''ol'', ''b'', ''i'', ''em'', ''strong'', ''code'', ''span'']"

text \<open>
  The tree builder. \<open>cur\<close> holds the children of the current node so far; \<open>st\<close> is
  the stack of open elements, innermost first, each with the children that its parent
  had when it was opened. At the end of the input no element may be open.
\<close>

fun li_allowed :: "(string \<times> node list) list \<Rightarrow> bool" where
  "li_allowed [] = True"
| "li_allowed ((p, sibs) # st) = (p = ''ul'' \<or> p = ''ol'')"

fun build :: "token list \<Rightarrow> (string \<times> node list) list \<Rightarrow> node list \<Rightarrow> node list option" where
  "build [] st cur = (if st = [] then Some cur else None)"
| "build (Chars s # ts) st cur = build ts st (cur @ [TextNode s])"
| "build (StartTag t # ts) st cur =
     (if t \<in> set void_elements then build ts st (cur @ [Element t []])
      else if t \<notin> set supported_elements then None
      else if t = ''li'' \<and> \<not> li_allowed st then None
      else build ts ((t, cur) # st) [])"
| "build (EndTag t # ts) st cur =
     (case st of
        [] \<Rightarrow> None
      | (p, sibs) # st' \<Rightarrow>
          if p = t then build ts st' (sibs @ [Element t cur]) else None)"

text \<open>The children of the \<open>ul\<close> element after \<open>list.innerHTML = values\<close>.\<close>

definition innerHTML :: "string \<Rightarrow> node list option" where
  "innerHTML values = (case tokenize values of None \<Rightarrow> None | Some ts \<Rightarrow> build ts [] [])"

subsection \<open>toBrDelimitedContent\<close>

text \<open>
  \<open>content\<close> is the array that the callbacks push to; each function takes it and
  returns it updated. \<open>appendLiToContent\<close> is called on whatever node it is given: the
  \<open>childNodes\<close> of a text node is empty, so only the break is pushed for it.
  \<open>forEach_callback\<close> is the arrow function passed to \<open>li.childNodes.forEach\<close>.
\<close>

fun appendLiToContent :: "node \<Rightarrow> string list \<Rightarrow> string list"
  and forEach_callback :: "node \<Rightarrow> string list \<Rightarrow> string list" where
  "appendLiToContent (TextNode v) content = content @ [''<br>'']"
| "appendLiToContent (Element t cs) content = fold forEach_callback cs content @ [''<br>'']"
| "forEach_callback (TextNode v) content = content @ [v]"
| "forEach_callback (Element t cs) content =
     (if ''UL'' = nodeName_of (Element t cs) \<or> ''OL'' = nodeName_of (Element t cs)
      then fold appendLiToContent cs content
      else content @ [outerHTML (Element t cs)])"

text \<open>
  The result is \<open>None\<close> where the markup is outside the modelled fragment of HTML,
  \<open>Some Undefined\<close> where the source returns \<open>undefined\<close>.
\<close>

fun toBrDelimitedContent :: "js_string \<Rightarrow> js_string option" where
  "toBrDelimitedContent Undefined = Some Undefined"
| "toBrDelimitedContent (Str values) =
     (case innerHTML values of
        None \<Rightarrow> None
      | Some childNodes \<Rightarrow> Some (Str (join_sep [] (fold appendLiToContent childNodes []))))"

subsection \<open>The attributes of the block, and merge\<close>

text \<open>
  The attributes of a List block. The record is extensible: what \<open>...attributes\<close>
  copies besides the two declared attributes is the \<open>more\<close> part.
\<close>

record list_attributes =
  nodeName :: string
  "values" :: string

text \<open>
  \<open>attributesToMerge\<close>, the attributes of the block merged in: \<open>values\<close> when
  it is a list, \<open>content\<close> when it is a text-like block; either may be missing.
\<close>

record attributes_to_merge =
  values_of_other :: js_string
  content_of_other :: js_string

text \<open>JavaScript truthiness of a string or undefined: defined and not empty.\<close>

fun truthy :: "js_string \<Rightarrow> bool" where
  "truthy Undefined = False"
| "truthy (Str s) = (s \<noteq> [])"

text \<open>\<open>x || ''\<close>\<close>

fun or_empty :: "js_string \<Rightarrow> string" where
  "or_empty Undefined = []"
| "or_empty (Str s) = (if truthy (Str s) then s else [])"

definition merge ::
  "'a list_attributes_scheme \<Rightarrow> attributes_to_merge \<Rightarrow> 'a list_attributes_scheme" where
  "merge attributes attributesToMerge =
     (let valuesToMerge = or_empty (values_of_other attributesToMerge);
          valuesToMerge = (case content_of_other attributesToMerge of
                             Undefined \<Rightarrow> valuesToMerge
                           | Str c \<Rightarrow> if truthy (Str c) then valuesToMerge @ c
                                      else valuesToMerge)
      in attributes\<lparr>values := values attributes @ valuesToMerge\<rparr>)"

subsection \<open>The split handler of the editable\<close>

text \<open>
  \<open>createBlock\<close>, \<open>setAttributes\<close> and \<open>insertBlocksAfter\<close> belong to the host
  editor and are not in this file. A block is a type name with the attributes it was
  created with.
\<close>

record block =
  name :: string
  attributes :: "(string \<times> string) list"

text \<open>
  Modelled from the spec: \<open>createBlock\<close> of the host's block API, which is missing
  here. It makes a block of the given type with the given attributes; without
  attributes the block is an empty one.
\<close>

definition createBlock :: "string \<Rightarrow> (string \<times> string) list \<Rightarrow> block" where
  "createBlock n attrs = \<lparr>name = n, attributes = attrs\<rparr>"

text \<open>
  The part of the document that the handler acts on: the attributes of the current
  List block and the blocks that follow it.
\<close>

record editor =
  current :: list_attributes
  following :: "block list"

text \<open>
  Modelled from the spec: \<open>setAttributes\<close> of the host, which is missing here,
  called with \<open>{ values: v }\<close>. It sets the values of the current block and leaves
  its other attributes.
\<close>

definition setAttributes_values :: "string \<Rightarrow> editor \<Rightarrow> editor" where
  "setAttributes_values v st = st\<lparr>current := (current st)\<lparr>values := v\<rparr>\<rparr>"

text \<open>
  Modelled from the spec: \<open>insertBlocksAfter\<close> of the host, which is missing here.
  It inserts the given blocks right after the current block, in order.
\<close>

definition insertBlocksAfter :: "block list \<Rightarrow> editor \<Rightarrow> editor" where
  "insertBlocksAfter bs st = st\<lparr>following := bs @ following st\<rparr>"

text \<open>
  \<open>onSplit(before, after, ...blocks)\<close>; \<open>nodeName\<close> is the attribute that
  \<open>render\<close> read from the current block.
\<close>

definition onSplit :: "editor \<Rightarrow> string \<Rightarrow> string \<Rightarrow> block list \<Rightarrow> editor" where
  "onSplit st before after blocks =
     (let blocks = (if blocks = [] then blocks @ [createBlock ''core/paragraph'' []]
                    else blocks);
          blocks = (if length after \<noteq> 0
                    then blocks @ [createBlock ''core/list''
                                     [(''nodeName'', nodeName (current st)), (''values'', after)]]
                    else blocks)
      in insertBlocksAfter blocks (setAttributes_values before st))"

section \<open>Notions used in the statements\<close>

text \<open>A string that is one whole match of the line-break expression.\<close>

definition is_br_marker :: "string \<Rightarrow> bool" where
  "is_br_marker m = (match_br m = Some [])"

text \<open>The expression matches somewhere in the string.\<close>

fun contains_br :: "string \<Rightarrow> bool" where
  "contains_br [] = False"
| "contains_br (c # cs) = (case match_br (c # cs) of Some r \<Rightarrow> True | None \<Rightarrow> contains_br cs)"

text \<open>
  The markup of a tree, written the plain way: text as it stands, an element as its
  start tag, the markup of its children and its end tag, a void element as its start
  tag alone. \<open>markup_list\<close> is the markup of a sequence of nodes, one after the other.
\<close>

fun markup :: "node \<Rightarrow> string" where
  "markup (TextNode v) = v"
| "markup (Element t cs) =
     (if t \<in> set void_elements then ''<'' @ t @ ''>''
      else ''<'' @ t @ ''>'' @ concat (map markup cs) @ ''</'' @ t @ ''>'')"

definition markup_list :: "node list \<Rightarrow> string" where
  "markup_list ns = concat (map markup ns)"

text \<open>
  The trees whose markup lies in the modelled fragment of HTML: text is not empty and
  has only characters that the parser reads as they stand; an element is one of the
  modelled ones; a \<open>br\<close> has no children; an \<open>li\<close> occurs only where \<open>li_ok\<close>
  holds, which is at the top level and directly inside a \<open>ul\<close> or an \<open>ol\<close>; no two
  text nodes are neighbours (the parser would read them as one).
\<close>

fun adjacent_text :: "node list \<Rightarrow> bool" where
  "adjacent_text (TextNode a # TextNode b # ns) = True"
| "adjacent_text (n # ns) = adjacent_text ns"
| "adjacent_text [] = False"

fun in_fragment :: "bool \<Rightarrow> node \<Rightarrow> bool" where
  "in_fragment li_ok (TextNode v) = (v \<noteq> [] \<and> list_all text_char v)"
| "in_fragment li_ok (Element t cs) =
     (if t \<in> set void_elements then cs = []
      else t \<in> set supported_elements
           \<and> (if t = ''li'' then li_ok else True)
           \<and> list_all (in_fragment (t = ''ul'' \<or> t = ''ol'')) cs
           \<and> \<not> adjacent_text cs)"

text \<open>
  Text that a serialiser writes as it stands. Inside an element that is written out
  as a whole, text with one of the four other characters would come back as a
  character reference, which the modelled parser does not read.
\<close>

definition unescaped_char :: "char \<Rightarrow> bool" where
  "unescaped_char c =
     (c \<noteq> CHR ''&'' \<and> c \<noteq> CHR ''<'' \<and> c \<noteq> CHR ''>'' \<and> c \<noteq> CHR 0xA0)"

fun unescaped :: "node \<Rightarrow> bool" where
  "unescaped (TextNode v) = list_all unescaped_char v"
| "unescaped (Element t cs) = list_all unescaped cs"

text \<open>
  Where that matters: \<open>item_ok\<close> for a list item (a top-level node, or a child of a
  nested list), \<open>child_ok\<close> for a child of a list item. Text directly in an item is not
  restricted; an element in an item that is not a nested list is written out as a
  whole, so the text inside it is.
\<close>

fun item_ok :: "node \<Rightarrow> bool"
  and child_ok :: "node \<Rightarrow> bool" where
  "item_ok (TextNode v) = True"
| "item_ok (Element t cs) = list_all child_ok cs"
| "child_ok (TextNode v) = True"
| "child_ok (Element t cs) =
     (if t = ''ul'' \<or> t = ''ol'' then list_all item_ok cs else unescaped (Element t cs))"

text \<open>The children of a top-level \<open>li\<close> that the model covers.\<close>

definition li_content :: "node list \<Rightarrow> bool" where
  "li_content cs =
     (list_all (in_fragment False) cs \<and> \<not> adjacent_text cs \<and> list_all child_ok cs)"

text \<open>
  The flat text as section 4.2 of the specification words it, on the tree that the
  markup stands for. A child of an item that is a nested list gives the flat text of
  the items of that list; a text gives itself; any other element gives its markup.
  An item gives what its children give, in order, and then one line-break marker.
\<close>

fun spec_flat_item :: "node \<Rightarrow> string"
  and spec_flat_child :: "node \<Rightarrow> string" where
  "spec_flat_item (TextNode v) = ''<br>''"
| "spec_flat_item (Element t cs) = concat (map spec_flat_child cs) @ ''<br>''"
| "spec_flat_child (TextNode v) = v"
| "spec_flat_child (Element t cs) =
     (if t = ''ul'' \<or> t = ''ol'' then concat (map spec_flat_item cs)
      else markup (Element t cs))"

definition spec_flat_content :: "node list \<Rightarrow> string" where
  "spec_flat_content cs = concat (map spec_flat_child cs)"

subsection \<open>Notions used in the proofs\<close>

definition li_markup :: "string \<Rightarrow> string" where
  "li_markup s = ''<li>'' @ s @ ''</li>''"

text \<open>The tokens of the markup of a tree.\<close>

fun tokens_of :: "node \<Rightarrow> token list" where
  "tokens_of (TextNode v) = [Chars v]"
| "tokens_of (Element t cs) =
     (if t \<in> set void_elements then [StartTag t]
      else StartTag t # concat (map tokens_of cs) @ [EndTag t])"

text \<open>Input that does not go on with text: it is empty or starts with a tag.\<close>

fun tag_start :: "string \<Rightarrow> bool" where
  "tag_start [] = True"
| "tag_start (c # cs) = (c = CHR ''<'')"

fun is_text :: "node \<Rightarrow> bool" where
  "is_text (TextNode v) = True"
| "is_text (Element t cs) = False"

section \<open>Properties\<close>

subsection \<open>Matching and splitting\<close>

lemma br_tail_append: "br_tail t = Some [] \<Longrightarrow> br_tail (t @ r) = Some r"
  by (induction t rule: br_tail.induct) (auto split: if_splits list.splits)

lemma match_br_append: "match_br m = Some [] \<Longrightarrow> match_br (m @ r) = Some r"
  by (cases m rule: match_br.cases) (auto split: if_splits simp: br_tail_append)

lemma br_tail_prefix: "br_tail t = Some r \<Longrightarrow> \<exists>u. t = u @ r \<and> br_tail u = Some []"
proof (induction t rule: br_tail.induct)
  case 1
  then show ?case by simp
next
  case (2 c cs)
  show ?case
  proof (cases "c = CHR ''>''")
    case True
    with 2 have "c # cs = [c] @ r \<and> br_tail [c] = Some []" by simp
    then show ?thesis by blast
  next
    case False
    note ngt = this
    show ?thesis
    proof (cases "c = CHR ''/''")
      case True
      with 2 ngt obtain d where "cs = d # r" "d = CHR ''>''"
        by (auto split: list.splits if_splits)
      with True have "c # cs = [c, d] @ r \<and> br_tail [c, d] = Some []" by simp
      then show ?thesis by blast
    next
      case False
      with 2 ngt have sp: "is_space c" and bt: "br_tail cs = Some r"
        by (auto split: if_splits)
      with 2 ngt False obtain u where u: "cs = u @ r" "br_tail u = Some []" by auto
      with ngt False sp have "c # cs = (c # u) @ r \<and> br_tail (c # u) = Some []" by simp
      then show ?thesis by blast
    qed
  qed
qed

lemma match_br_prefix: "match_br s = Some r \<Longrightarrow> \<exists>m. s = m @ r \<and> match_br m = Some []"
proof (cases s rule: match_br.cases)
  case (1 a b c cs)
  assume m: "match_br s = Some r"
  with 1 have abc: "a = CHR ''<''" "b = CHR ''b''" "c = CHR ''r''" and bt: "br_tail cs = Some r"
    by (auto split: if_splits)
  from br_tail_prefix[OF bt] obtain u where u: "cs = u @ r" "br_tail u = Some []" by blast
  with 1 abc have "s = (a # b # c # u) @ r \<and> match_br (a # b # c # u) = Some []" by simp
  then show ?thesis by blast
qed auto

text \<open>\<open>contains_br\<close> says that some substring is a match of the expression.\<close>

lemma contains_br_substring:
  "contains_br s \<longleftrightarrow> (\<exists>p m q. s = p @ m @ q \<and> match_br m = Some [])"
proof (induction s)
  case Nil
  then show ?case by simp
next
  case (Cons c cs)
  show ?case
  proof
    assume "contains_br (c # cs)"
    then consider r where "match_br (c # cs) = Some r" | "contains_br cs"
      by (auto split: option.splits)
    then show "\<exists>p m q. c # cs = p @ m @ q \<and> match_br m = Some []"
    proof cases
      case 1
      from match_br_prefix[OF 1] obtain m where "c # cs = [] @ m @ r" "match_br m = Some []"
        by auto
      then show ?thesis by blast
    next
      case 2
      with Cons obtain p m q where "cs = p @ m @ q" "match_br m = Some []" by blast
      then have "c # cs = (c # p) @ m @ q \<and> match_br m = Some []" by simp
      then show ?thesis by blast
    qed
  next
    assume "\<exists>p m q. c # cs = p @ m @ q \<and> match_br m = Some []"
    then obtain p m q where pmq: "c # cs = p @ m @ q" and m: "match_br m = Some []" by blast
    show "contains_br (c # cs)"
    proof (cases p)
      case Nil
      with pmq have "c # cs = m @ q" by simp
      with match_br_append[OF m, of q] have "match_br (c # cs) = Some q" by simp
      then show ?thesis by simp
    next
      case (Cons a p')
      with pmq have "cs = p' @ m @ q" by simp
      with m Cons.IH have "contains_br cs" by blast
      then show ?thesis by (simp split: option.splits)
    qed
  qed
qed

lemma split_loop_no_match: "\<not> contains_br s \<Longrightarrow> split_loop seg s = [seg @ s]"
  by (induction s arbitrary: seg) (auto split: option.splits)

lemma split_loop_marker:
  assumes "match_br m = Some []"
  shows "split_loop seg (m @ r) = seg # split_loop [] r"
proof (cases m)
  case Nil
  with assms show ?thesis by simp
next
  case (Cons c cs)
  from match_br_append[OF assms, of r] Cons have "match_br (c # (cs @ r)) = Some r" by simp
  with Cons show ?thesis by simp
qed

lemma split_loop_markers:
  "\<forall>m\<in>set ms. match_br m = Some [] \<Longrightarrow>
   split_loop seg (concat ms) = seg # replicate (length ms) []"
  by (induction ms arbitrary: seg) (auto simp: split_loop_marker)

lemma foldl_reduce_step_empty: "foldl reduce_step memo (replicate n []) = memo"
  by (induction n) (auto simp: reduce_step_def)

lemma foldl_reduce_step:
  "foldl reduce_step memo segs = memo @ map li_markup (filter (\<lambda>item. item \<noteq> []) segs)"
  by (induction segs arbitrary: memo) (auto simp: reduce_step_def li_markup_def)

text \<open>
  What the function computes on a defined input: the non-empty segments, each wrapped
  as a list item, joined with commas.
\<close>

lemma fromBrDelimitedContent_items:
  "fromBrDelimitedContent (Str content) =
     Str (join_sep '','' (map li_markup (filter (\<lambda>item. item \<noteq> []) (split_br content))))"
  by (simp add: foldl_reduce_step join_default_def)

subsection \<open>Undefined input\<close>

text \<open>
  C7. Both converters return undefined on undefined input: neither has a branch that
  raises there.
\<close>

theorem undefined_propagates:
  "fromBrDelimitedContent Undefined = Undefined
   \<and> toBrDelimitedContent Undefined = Some Undefined"
  by simp

subsection \<open>The separator of fromBrDelimitedContent\<close>

text \<open>
  C1. The claim is that the list items are concatenated with nothing between them.
  The source calls \<open>join()\<close> without an argument, so a comma stands between the items:
  the flat text \<open>a<br>b<br>c\<close> becomes \<open><li>a</li>,<li>b</li>,<li>c</li>\<close>.
\<close>

theorem fromBrDelimitedContent_joins_with_commas:
  "fromBrDelimitedContent (Str ''a<br>b<br>c'') = Str ''<li>a</li>,<li>b</li>,<li>c</li>''"
  by code_simp

subsection \<open>Empty segments and single segments\<close>

text \<open>
  C8. For the empty string, and for every input made of line-break markers only (so
  that every segment is empty), fromBrDelimitedContent returns the empty string: no
  list item is produced for an empty segment.
\<close>

theorem fromBrDelimitedContent_only_markers:
  assumes "\<forall>m\<in>set ms. is_br_marker m"
  shows "fromBrDelimitedContent (Str (concat ms)) = Str []
         \<and> fromBrDelimitedContent (Str []) = Str []"
  using assms
  by (simp add: is_br_marker_def split_br_def split_loop_markers reduce_step_def
        foldl_reduce_step_empty join_default_def)

theorem fromBrDelimitedContent_only_markers_witness:
  "is_br_marker ''<br>'' \<and> is_br_marker ''<br />'' \<and> is_br_marker ''<br/>''
   \<and> fromBrDelimitedContent (Str ''<br><br /><br/>'') = Str []"
  using fromBrDelimitedContent_only_markers [of "[''<br>'', ''<br />'', ''<br/>'']"]
  by (simp add: is_br_marker_def is_space_def)

text \<open>
  C10. A non-empty input in which the line-break expression matches nowhere is one
  segment, and the result is that input wrapped as one list item, with nothing before
  or after it.
\<close>

theorem fromBrDelimitedContent_single_segment:
  assumes "content \<noteq> []" and "\<not> contains_br content"
  shows "fromBrDelimitedContent (Str content) = Str (''<li>'' @ content @ ''</li>'')"
  using assms
  by (simp add: split_br_def split_loop_no_match reduce_step_def join_default_def)

theorem fromBrDelimitedContent_single_segment_witness:
  "''abc'' \<noteq> [] \<and> \<not> contains_br ''abc''
   \<and> fromBrDelimitedContent (Str ''abc'') = Str ''<li>abc</li>''"
  using fromBrDelimitedContent_single_segment [of "''abc''"]
  by simp

subsection \<open>The walk over the tree\<close>

lemma concat_concat_map: "concat (concat (map f xs)) = concat (map (\<lambda>x. concat (f x)) xs)"
  by (induction xs) auto

lemma join_sep_empty: "join_sep [] xs = concat xs"
  by (induction "[] :: string" xs rule: join_sep.induct) auto

lemma fold_content:
  assumes "\<And>x acc. x \<in> set xs \<Longrightarrow> f x acc = acc @ f x []"
  shows "fold f xs acc = acc @ concat (map (\<lambda>x. f x []) xs)"
  using assms
proof (induction xs arbitrary: acc)
  case Nil
  then show ?case by simp
next
  case (Cons x xs)
  have ih: "fold f xs (f x acc) = f x acc @ concat (map (\<lambda>x. f x []) xs)"
    by (rule Cons.IH) (rule Cons.prems, simp)
  have fx: "f x acc = acc @ f x []"
    by (rule Cons.prems) simp
  show ?case using ih by (simp add: fx)
qed

lemma walk_content:
  "appendLiToContent n content = content @ appendLiToContent n []"
  "forEach_callback m content = content @ forEach_callback m []"
proof (induction n content and m content rule: appendLiToContent_forEach_callback.induct)
  case (1 v content)
  then show ?case by simp
next
  case (2 t cs content)
  then have ih: "\<And>x acc. x \<in> set cs \<Longrightarrow> forEach_callback x acc = acc @ forEach_callback x []"
    by blast
  show ?case
    by (simp add: fold_content[of cs forEach_callback, OF ih])
next
  case (3 v content)
  then show ?case by simp
next
  case (4 t cs content)
  show ?case
  proof (cases "''UL'' = nodeName_of (Element t cs) \<or> ''OL'' = nodeName_of (Element t cs)")
    case True
    with 4 have ih: "\<And>x acc. x \<in> set cs \<Longrightarrow> appendLiToContent x acc = acc @ appendLiToContent x []"
      by blast
    from True show ?thesis
      by (simp add: fold_content[of cs appendLiToContent, OF ih])
  next
    case False
    then show ?thesis by simp
  qed
qed

lemma fold_appendLiToContent:
  "fold appendLiToContent ns content = content @ concat (map (\<lambda>n. appendLiToContent n []) ns)"
  by (rule fold_content) (rule walk_content(1))

lemma fold_forEach_callback:
  "fold forEach_callback ns content = content @ concat (map (\<lambda>n. forEach_callback n []) ns)"
  by (rule fold_content) (rule walk_content(2))

text \<open>
  Whatever the child nodes of the list are, the joined result is, node by node, what
  \<open>appendLiToContent\<close> pushes for that node alone.
\<close>

lemma join_fold_appendLiToContent:
  "join_sep [] (fold appendLiToContent ns [])
   = concat (map (\<lambda>n. concat (appendLiToContent n [])) ns)"
  by (simp add: join_sep_empty fold_appendLiToContent concat_concat_map)

subsection \<open>Parsing the markup of a tree\<close>

lemma tokenize_tag_first:
  "tokenize (CHR ''<'' # r) = Some ts \<Longrightarrow> \<exists>t ts'. ts = StartTag t # ts' \<or> ts = EndTag t # ts'"
  by (auto split: list.splits if_splits option.splits elim!: tag_token.elims)

lemma tokenize_chars:
  assumes "list_all text_char s" and "tag_start r"
  shows "tokenize (s @ r) = map_option (\<lambda>ts. (if s = [] then [] else [Chars s]) @ ts) (tokenize r)"
  using assms
proof (induction s)
  case Nil
  show ?case by (simp add: option.map_ident del: tokenize.simps)
next
  case (Cons c s)
  from Cons.prems have c0: "text_char c" and s: "list_all text_char s"
    by simp_all
  from c0 have c: "text_char c" "c \<noteq> CHR ''<''"
    by (simp_all add: text_char_def)
  have step: "tokenize ((c # s) @ r) = map_option (add_char c) (tokenize (s @ r))"
    using c by simp
  have ih: "tokenize (s @ r) = map_option (\<lambda>ts. (if s = [] then [] else [Chars s]) @ ts) (tokenize r)"
    using Cons.IH[OF s Cons.prems(2)] .
  show ?case
  proof (cases "tokenize r")
    case None
    with step ih show ?thesis by (simp del: tokenize.simps)
  next
    case (Some ts)
    show ?thesis
    proof (cases s)
      case Nil
      have "add_char c ts = Chars [c] # ts"
      proof (cases r)
        case Nil
        with Some show ?thesis by simp
      next
        case (Cons d r')
        with Cons.prems(2) have "d = CHR ''<''" by simp
        with Cons Some tokenize_tag_first[of r' ts] show ?thesis by auto
      qed
      with Nil step Some show ?thesis by (simp del: tokenize.simps)
    next
      case (Cons d s')
      with step Some ih show ?thesis by (simp del: tokenize.simps)
    qed
  qed
qed

lemma tokenize_start_tag:
  "t \<in> set supported_elements \<or> t \<in> set void_elements \<Longrightarrow>
   tokenize (''<'' @ t @ ''>'' @ r) = map_option (Cons (StartTag t)) (tokenize r)"
  by (cases "tokenize r")
     (auto simp: supported_elements_def void_elements_def is_letter_def lower_letters_def
                 upper_letters_def to_lower_def)

lemma tokenize_end_tag:
  "t \<in> set supported_elements \<Longrightarrow>
   tokenize (''</'' @ t @ ''>'' @ r) = map_option (Cons (EndTag t)) (tokenize r)"
  by (cases "tokenize r")
     (auto simp: supported_elements_def void_elements_def is_letter_def lower_letters_def
                 upper_letters_def to_lower_def)


lemma adjacent_text_Cons: "\<not> adjacent_text (n # ns) \<Longrightarrow> \<not> adjacent_text ns"
  by (cases n; cases ns) (auto elim: adjacent_text.elims)

lemma tag_start_markup_element: "tag_start (markup (Element t cs) @ x)"
  by simp

lemma tag_start_after_text:
  assumes "\<not> adjacent_text (TextNode v # ns)" and "tag_start r"
  shows "tag_start (concat (map markup ns) @ r)"
proof (cases ns)
  case Nil
  with assms show ?thesis by simp
next
  case (Cons m ms)
  with assms obtain t cs where "m = Element t cs" by (cases m) auto
  with Cons show ?thesis by simp
qed

lemma tokenize_forest_aux:
  assumes elems: "\<And>n b r. n \<in> set ns \<Longrightarrow> in_fragment b n \<Longrightarrow> \<not> is_text n \<Longrightarrow>
                    tokenize (markup n @ r) = map_option ((@) (tokens_of n)) (tokenize r)"
    and "list_all (in_fragment b) ns" and "\<not> adjacent_text ns" and "tag_start r"
  shows "tokenize (concat (map markup ns) @ r)
         = map_option ((@) (concat (map tokens_of ns))) (tokenize r)"
  using assms
proof (induction ns)
  case Nil
  show ?case by (simp add: option.map_ident)
next
  case (Cons n ns)
  let ?rest = "concat (map markup ns) @ r"
  have ih: "tokenize ?rest = map_option ((@) (concat (map tokens_of ns))) (tokenize r)"
  proof (rule Cons.IH)
    show "\<And>n b r. n \<in> set ns \<Longrightarrow> in_fragment b n \<Longrightarrow> \<not> is_text n \<Longrightarrow>
            tokenize (markup n @ r) = map_option ((@) (tokens_of n)) (tokenize r)"
      using Cons.prems(1) by simp
    show "list_all (in_fragment b) ns" using Cons.prems(2) by simp
    show "\<not> adjacent_text ns" using Cons.prems(3) by (rule adjacent_text_Cons)
    show "tag_start r" by (rule Cons.prems(4))
  qed
  have n: "in_fragment b n" using Cons.prems(2) by simp
  have head: "tokenize (markup n @ ?rest) = map_option ((@) (tokens_of n)) (tokenize ?rest)"
  proof (cases n)
    case (TextNode v)
    with n have v: "v \<noteq> []" "list_all text_char v" by simp_all
    have "tag_start ?rest"
      using Cons.prems(3) Cons.prems(4) unfolding TextNode by (rule tag_start_after_text)
    from tokenize_chars[OF v(2) this] v(1) TextNode show ?thesis
      by (cases "tokenize ?rest") simp_all
  next
    case (Element t cs)
    then have "\<not> is_text n" by simp
    with Cons.prems(1)[of n b ?rest] n show ?thesis by simp
  qed
  have "tokenize (concat (map markup (n # ns)) @ r) = tokenize (markup n @ ?rest)" by simp
  also note head
  finally show ?case by (simp add: ih option.map_comp comp_def)
qed

lemma tokenize_node:
  "in_fragment b n \<Longrightarrow> \<not> is_text n \<Longrightarrow>
   tokenize (markup n @ r) = map_option ((@) (tokens_of n)) (tokenize r)"
proof (induction n arbitrary: b r)
  case (TextNode v)
  then show ?case by simp
next
  case (Element t cs)
  show ?case
  proof (cases "t \<in> set void_elements")
    case True
    then show ?thesis using tokenize_start_tag[of t r] by simp
  next
    case False
    with Element.prems have t: "t \<in> set supported_elements"
      and cs: "list_all (in_fragment (t = ''ul'' \<or> t = ''ol'')) cs" and adj: "\<not> adjacent_text cs"
      by simp_all
    let ?close = "''</'' @ t @ ''>'' @ r"
    have inner: "tokenize (concat (map markup cs) @ ?close)
                 = map_option ((@) (concat (map tokens_of cs))) (tokenize ?close)"
    proof (rule tokenize_forest_aux[OF _ cs adj])
      show "\<And>n b r. n \<in> set cs \<Longrightarrow> in_fragment b n \<Longrightarrow> \<not> is_text n \<Longrightarrow>
              tokenize (markup n @ r) = map_option ((@) (tokens_of n)) (tokenize r)"
        using Element.IH by blast
      show "tag_start ?close" by simp
    qed
    have "markup (Element t cs) @ r = ''<'' @ t @ ''>'' @ (concat (map markup cs) @ ?close)"
      using False by simp
    then have "tokenize (markup (Element t cs) @ r)
               = map_option (Cons (StartTag t)) (tokenize (concat (map markup cs) @ ?close))"
      using tokenize_start_tag[of t "concat (map markup cs) @ ?close"] t by simp
    also note inner
    also note tokenize_end_tag[OF t, of r]
    finally show ?thesis using False by (simp add: option.map_comp comp_def)
  qed
qed

lemma tokenize_markup_list:
  assumes "list_all (in_fragment b) ns" and "\<not> adjacent_text ns"
  shows "tokenize (markup_list ns) = Some (concat (map tokens_of ns))"
  using tokenize_forest_aux[of ns b "[]", OF tokenize_node assms] 
  by (simp add: markup_list_def)

lemma build_forest_aux:
  assumes "\<And>n st cur ts. n \<in> set ns \<Longrightarrow> in_fragment (li_allowed st) n \<Longrightarrow>
             build (tokens_of n @ ts) st cur = build ts st (cur @ [n])"
    and "list_all (in_fragment (li_allowed st)) ns"
  shows "build (concat (map tokens_of ns) @ ts) st cur = build ts st (cur @ ns)"
  using assms
proof (induction ns arbitrary: cur)
  case Nil
  show ?case by simp
next
  case (Cons n ns)
  have "build (concat (map tokens_of (n # ns)) @ ts) st cur
        = build (tokens_of n @ (concat (map tokens_of ns) @ ts)) st cur" by simp
  also have "\<dots> = build (concat (map tokens_of ns) @ ts) st (cur @ [n])"
    using Cons.prems by simp
  also have "\<dots> = build ts st ((cur @ [n]) @ ns)"
    using Cons.prems by (intro Cons.IH) simp_all
  finally show ?case by simp
qed

lemma build_node:
  "in_fragment (li_allowed st) n \<Longrightarrow> build (tokens_of n @ ts) st cur = build ts st (cur @ [n])"
proof (induction n arbitrary: st cur ts)
  case (TextNode v)
  then show ?case by simp
next
  case (Element t cs)
  show ?case
  proof (cases "t \<in> set void_elements")
    case True
    with Element.prems show ?thesis by simp
  next
    case False
    with Element.prems have t: "t \<in> set supported_elements"
      and li: "t = ''li'' \<Longrightarrow> li_allowed st"
      and cs: "list_all (in_fragment (t = ''ul'' \<or> t = ''ol'')) cs"
      by (simp_all split: if_splits)
    let ?st = "(t, cur) # st"
    have cs': "list_all (in_fragment (li_allowed ?st)) cs" using cs by simp
    have inner: "build (concat (map tokens_of cs) @ EndTag t # ts) ?st []
                 = build (EndTag t # ts) ?st ([] @ cs)"
      by (rule build_forest_aux[OF _ cs']) (use Element.IH in blast)
    have "build (tokens_of (Element t cs) @ ts) st cur
          = build (concat (map tokens_of cs) @ EndTag t # ts) ?st []"
      using False t li by auto
    also note inner
    finally show ?thesis by simp
  qed
qed

lemma innerHTML_markup_list:
  assumes "list_all (in_fragment True) ns" and "\<not> adjacent_text ns"
  shows "innerHTML (markup_list ns) = Some ns"
proof -
  have "list_all (in_fragment (li_allowed [])) ns" using assms(1) by simp
  from build_forest_aux[of ns "[]" "[]" "[]", OF build_node this]
  have "build (concat (map tokens_of ns)) [] [] = Some ns" by simp
  with tokenize_markup_list[OF assms] show ?thesis by (simp add: innerHTML_def)
qed


subsection \<open>The walk and the flat text of the specification\<close>

lemma concat_map_cong:
  "(\<And>x. x \<in> set xs \<Longrightarrow> f x = g x) \<Longrightarrow> concat (map f xs) = concat (map g xs)"
  by (induction xs) auto

lemma escape_unescaped: "list_all unescaped_char v \<Longrightarrow> concat (map escape_char v) = v"
  by (induction v) (auto simp: unescaped_char_def escape_char_def)

lemma outerHTML_unescaped: "unescaped n \<Longrightarrow> outerHTML n = markup n"
proof (induction n)
  case (TextNode v)
  then show ?case by (simp add: escape_unescaped)
next
  case (Element t cs)
  have "concat (map outerHTML cs) = concat (map markup cs)"
    by (rule concat_map_cong) (use Element in \<open>auto simp: list_all_iff\<close>)
  then show ?case by simp
qed

lemma nodeName_list:
  assumes "t \<in> set supported_elements \<or> t \<in> set void_elements"
  shows "(''UL'' = nodeName_of (Element t cs) \<or> ''OL'' = nodeName_of (Element t cs))
         = (t = ''ul'' \<or> t = ''ol'')"
proof -
  from assms have "t = ''li'' \<or> t = ''ul'' \<or> t = ''ol'' \<or> t = ''b'' \<or> t = ''i''
    \<or> t = ''em'' \<or> t = ''strong'' \<or> t = ''code'' \<or> t = ''span'' \<or> t = ''br''"
    by (simp add: supported_elements_def void_elements_def)
  then show ?thesis
    by (elim disjE) (simp_all add: to_upper_def lower_letters_def upper_letters_def)
qed

lemma in_fragment_tag:
  "in_fragment b (Element t cs) \<Longrightarrow> t \<in> set supported_elements \<or> t \<in> set void_elements"
  by (simp split: if_splits)

lemma in_fragment_children:
  "in_fragment b (Element t cs) \<Longrightarrow> c \<in> set cs \<Longrightarrow> in_fragment (t = ''ul'' \<or> t = ''ol'') c"
  by (auto simp: list_all_iff split: if_splits)

lemma walk_spec:
  "(in_fragment b n \<longrightarrow> item_ok n \<longrightarrow> concat (appendLiToContent n []) = spec_flat_item n)
   \<and> (in_fragment b n \<longrightarrow> child_ok n \<longrightarrow> concat (forEach_callback n []) = spec_flat_child n)"
proof (induction n arbitrary: b)
  case (TextNode v)
  show ?case by simp
next
  case (Element t cs)
  have item: "concat (appendLiToContent (Element t cs) []) = spec_flat_item (Element t cs)"
    if frag: "in_fragment b (Element t cs)" and ok: "item_ok (Element t cs)"
  proof -
    have "concat (forEach_callback c []) = spec_flat_child c" if "c \<in> set cs" for c
      using Element.IH[OF that] in_fragment_children[OF frag that] ok that
      by (auto simp: list_all_iff)
    then have "concat (map (\<lambda>c. concat (forEach_callback c [])) cs)
               = concat (map spec_flat_child cs)"
      by (rule concat_map_cong)
    then show ?thesis
      by (simp add: fold_forEach_callback concat_concat_map)
  qed
  have child: "concat (forEach_callback (Element t cs) []) = spec_flat_child (Element t cs)"
    if frag: "in_fragment b (Element t cs)" and ok: "child_ok (Element t cs)"
  proof (cases "t = ''ul'' \<or> t = ''ol''")
    case True
    then have name: "''UL'' = nodeName_of (Element t cs) \<or> ''OL'' = nodeName_of (Element t cs)"
      using nodeName_list[OF in_fragment_tag[OF frag], of cs] by simp
    have "concat (appendLiToContent c []) = spec_flat_item c" if "c \<in> set cs" for c
      using Element.IH[OF that] in_fragment_children[OF frag that] ok that True
      by (auto simp: list_all_iff)
    then have "concat (map (\<lambda>c. concat (appendLiToContent c [])) cs)
               = concat (map spec_flat_item cs)"
      by (rule concat_map_cong)
    with name True show ?thesis
      by (simp add: fold_appendLiToContent concat_concat_map del: nodeName_of.simps)
  next
    case False
    then have name: "\<not> (''UL'' = nodeName_of (Element t cs) \<or> ''OL'' = nodeName_of (Element t cs))"
      using nodeName_list[OF in_fragment_tag[OF frag], of cs] by simp
    from ok False have "unescaped (Element t cs)" by simp
    then have "outerHTML (Element t cs) = markup (Element t cs)"
      by (rule outerHTML_unescaped)
    with name False show ?thesis
      by (simp del: nodeName_of.simps outerHTML.simps markup.simps)
  qed
  from item child show ?case by blast
qed

lemma toBrDelimitedContent_markup_list:
  assumes frag: "list_all (in_fragment True) ns" and adj: "\<not> adjacent_text ns"
    and ok: "list_all item_ok ns"
  shows "toBrDelimitedContent (Str (markup_list ns))
         = Some (Str (concat (map spec_flat_item ns)))"
proof -
  have "concat (appendLiToContent n []) = spec_flat_item n" if "n \<in> set ns" for n
    using walk_spec[of True n] frag ok that by (auto simp: list_all_iff)
  then have "concat (map (\<lambda>n. concat (appendLiToContent n [])) ns)
             = concat (map spec_flat_item ns)"
    by (rule concat_map_cong)
  then show ?thesis
    using innerHTML_markup_list[OF frag adj]
    by (simp add: join_fold_appendLiToContent)
qed

lemma adjacent_text_elements: "\<not> adjacent_text (map (Element t) css)"
  by (induction css) auto

text \<open>
  Where no child of the item is a nested list, the flat text of the item's content
  is its markup.
\<close>

lemma spec_flat_content_inline:
  assumes "\<And>t cs'. Element t cs' \<in> set cs \<Longrightarrow> t \<noteq> ''ul'' \<and> t \<noteq> ''ol''"
  shows "spec_flat_content cs = markup_list cs"
  unfolding spec_flat_content_def markup_list_def
proof (rule concat_map_cong)
  fix x assume "x \<in> set cs"
  with assms show "spec_flat_child x = markup x"
    by (cases x) auto
qed

subsection \<open>The empty list\<close>

text \<open>
  C9. The empty string has no child nodes, nothing is pushed, and the result is the
  empty string: defined, and without a break.
\<close>

theorem toBrDelimitedContent_empty:
  "toBrDelimitedContent (Str []) = Some (Str [])"
  by code_simp

subsection \<open>Top-level items\<close>

text \<open>
  C6. For markup that is a sequence of top-level \<open>li\<close> items, toBrDelimitedContent
  returns, item after item, the item's content followed by one line-break marker, also
  after the last item. The content of an item may be text, inline elements, \<open>br\<close> and
  nested lists, inside the modelled fragment of HTML; its flat text is its markup where
  it has no nested list (\<open>spec_flat_content_inline\<close>). So \<open><li>a</li><li>b</li>\<close>
  becomes \<open>a<br>b<br>\<close>.
\<close>

theorem toBrDelimitedContent_items:
  assumes "\<forall>cs\<in>set css. li_content cs"
  shows "toBrDelimitedContent
           (Str (concat (map (\<lambda>cs. ''<li>'' @ markup_list cs @ ''</li>'') css)))
         = Some (Str (concat (map (\<lambda>cs. spec_flat_content cs @ ''<br>'') css)))"
proof -
  let ?items = "map (Element ''li'') css"
  have frag: "list_all (in_fragment True) ?items"
    using assms
    by (auto simp: list_all_iff li_content_def void_elements_def supported_elements_def)
  have ok: "list_all item_ok ?items"
    using assms by (auto simp: list_all_iff li_content_def)
  have m: "markup_list ?items = concat (map (\<lambda>cs. ''<li>'' @ markup_list cs @ ''</li>'') css)"
    by (simp add: markup_list_def void_elements_def comp_def)
  have f: "map spec_flat_item ?items = map (\<lambda>cs. spec_flat_content cs @ ''<br>'') css"
    by (simp add: spec_flat_content_def)
  from toBrDelimitedContent_markup_list[OF frag adjacent_text_elements ok]
  show ?thesis unfolding m f .
qed

theorem toBrDelimitedContent_items_witness:
  "li_content [TextNode ''a''] \<and> li_content [TextNode ''b'']
   \<and> toBrDelimitedContent (Str ''<li>a</li><li>b</li>'') = Some (Str ''a<br>b<br>'')
   \<and> li_content [TextNode ''a>'', Element ''b'' [TextNode ''x''], Element ''br'' []]
   \<and> toBrDelimitedContent (Str ''<li>a><b>x</b><br></li>'') = Some (Str ''a><b>x</b><br><br>'')"
  using toBrDelimitedContent_items [of "[[TextNode ''a''], [TextNode ''b'']]"]
        toBrDelimitedContent_items
          [of "[[TextNode ''a>'', Element ''b'' [TextNode ''x''], Element ''br'' []]]"]
  by (simp add: li_content_def markup_list_def spec_flat_content_def text_char_def
        void_elements_def supported_elements_def unescaped_char_def)

subsection \<open>Nested lists\<close>

text \<open>
  C5. The claim is that the items of a nested list are emitted into the same flat
  sequence, each closed by its break, so that \<open><li>a<ul><li>b</li></ul></li>\<close>
  becomes \<open>a<br>b<br>\<close>. The source pushes the break of an item only after the loop
  over all its children, the nested list included: the text of the outer item and the
  first nested item are not separated, and the break of the outer item comes last.
  The result is \<open>ab<br><br>\<close>.
\<close>

theorem nested_list_break_after_children:
  "toBrDelimitedContent (Str ''<li>a<ul><li>b</li></ul></li>'') = Some (Str ''ab<br><br>'')"
  by code_simp

subsection \<open>To a list and back\<close>

text \<open>
  C2. The claim is that converting to a list and back gives each segment followed by
  one break. The comma between the items is parsed as a text node between the \<open>li\<close>
  elements, and \<open>appendLiToContent\<close> pushes a break for it: \<open>a<br>b\<close> comes back
  as \<open>a<br><br>b<br>\<close>.
\<close>

theorem round_trip_has_extra_break:
  "toBrDelimitedContent (fromBrDelimitedContent (Str ''a<br>b'')) = Some (Str ''a<br><br>b<br>'')"
  by code_simp

subsection \<open>merge\<close>

text \<open>
  C4. For every base and every incoming attributes, merge keeps the node name (and
  whatever else the base holds) and sets the values to the base's values, then the
  incoming values (nothing when missing), then the incoming content (nothing when
  missing), concatenated as strings. So \<open><li>x</li>\<close> merged with the content \<open>y\<close>
  is \<open><li>x</li>y\<close>.
\<close>

theorem merge_concatenates:
  "merge base incoming =
     base\<lparr>values := values base
                       @ (case values_of_other incoming of Undefined \<Rightarrow> [] | Str v \<Rightarrow> v)
                       @ (case content_of_other incoming of Undefined \<Rightarrow> [] | Str c \<Rightarrow> c)\<rparr>
   \<and> nodeName (merge base incoming) = nodeName base
   \<and> values (merge \<lparr>nodeName = ''UL'', values = ''<li>x</li>''\<rparr>
                    \<lparr>values_of_other = Undefined, content_of_other = Str ''y''\<rparr>)
     = ''<li>x</li>y''"
  by (simp add: merge_def Let_def split: js_string.split)

subsection \<open>Splitting\<close>

text \<open>
  C3. When the handler is called without intermediate blocks and with a non-empty
  \<open>after\<close>, the values of the current block become \<open>before\<close>, and an empty
  paragraph block followed by a List block with the same node name and the values
  \<open>after\<close> are inserted right after the current block, in this order.
\<close>

theorem onSplit_without_blocks:
  assumes "after \<noteq> []"
  shows "onSplit st before after [] =
           st\<lparr>current := (current st)\<lparr>values := before\<rparr>,
              following := [createBlock ''core/paragraph'' [],
                            createBlock ''core/list''
                              [(''nodeName'', nodeName (current st)), (''values'', after)]]
                           @ following st\<rparr>"
  using assms
  by (simp add: onSplit_def setAttributes_values_def insertBlocksAfter_def)

theorem onSplit_without_blocks_witness:
  "''<li>b</li>'' \<noteq> []
   \<and> onSplit \<lparr>current = \<lparr>nodeName = ''UL'', values = ''<li>a</li><li>b</li>''\<rparr>, following = []\<rparr>
        ''<li>a</li>'' ''<li>b</li>'' []
     = \<lparr>current = \<lparr>nodeName = ''UL'', values = ''<li>a</li>''\<rparr>,
        following = [\<lparr>name = ''core/paragraph'', attributes = []\<rparr>,
                     \<lparr>name = ''core/list'',
                      attributes = [(''nodeName'', ''UL''), (''values'', ''<li>b</li>'')]\<rparr>]\<rparr>"
  using onSplit_without_blocks
          [of "''<li>b</li>''"
              "\<lparr>current = \<lparr>nodeName = ''UL'', values = ''<li>a</li><li>b</li>''\<rparr>, following = []\<rparr>"
              "''<li>a</li>''"]
  by (simp add: createBlock_def)

end
